theory Spec2Isabelle
  imports Complex_Main "HOL-Library.Word" "HOL-Library.Signed_Division"
begin

section \<open>Strings: \<open>extractUsername\<close>\<close>

text \<open>
  Go strings are byte sequences; they are modelled as \<open>string\<close> (a list of \<open>char\<close>).
  \<open>strings.Index\<close> and \<open>strings.LastIndex\<close> are used by the source with one-byte
  separators only, so the separator is a single \<open>char\<close>. Both return \<open>-1\<close> when the
  separator does not occur.
\<close>

definition backslash :: char where
  "backslash = CHR 0x5C"

definition at_sign :: char where
  "at_sign = CHR ''@''"

fun strings_Index :: "string \<Rightarrow> char \<Rightarrow> int" where
  "strings_Index [] c = - 1"
| "strings_Index (x # xs) c =
     (if x = c then 0
      else (let i = strings_Index xs c in if i < 0 then - 1 else i + 1))"

fun strings_LastIndex :: "string \<Rightarrow> char \<Rightarrow> int" where
  "strings_LastIndex [] c = - 1"
| "strings_LastIndex (x # xs) c =
     (let i = strings_LastIndex xs c in
      if 0 \<le> i then i + 1 else if x = c then 0 else - 1)"

text \<open>
  \<open>fullUsername[i+1:]\<close> is \<open>drop (i + 1)\<close> and \<open>fullUsername[:i]\<close> is \<open>take i\<close>; the
  indices come from the two searches, so the slices never leave the string.
\<close>

definition extractUsername :: "string \<Rightarrow> string" where
  "extractUsername fullUsername =
     (let i = strings_LastIndex fullUsername backslash in
      if 0 \<le> i then drop (nat (i + 1)) fullUsername
      else (let j = strings_Index fullUsername at_sign in
            if 0 \<le> j then take (nat j) fullUsername
            else fullUsername))"

section \<open>Go integers and floats\<close>

text \<open>
  Go's \<open>int\<close> is a 64-bit two's complement integer on the program's target. It is modelled
  as \<open>int\<close> with the wrap-around written out: every arithmetic result is reduced by
  \<open>wrap64\<close>. Integer division truncates towards zero (\<open>sdiv\<close>); the source divides by
  the literals 2, 3 and 4 only, so no division by zero can occur.
\<close>

definition wrap64 :: "int \<Rightarrow> int" where
  "wrap64 k = (k + 2 ^ 63) mod 2 ^ 64 - 2 ^ 63"

definition int_add :: "int \<Rightarrow> int \<Rightarrow> int" where
  "int_add a b = wrap64 (a + b)"

definition int_mul :: "int \<Rightarrow> int \<Rightarrow> int" where
  "int_mul a b = wrap64 (a * b)"

definition int_neg :: "int \<Rightarrow> int" where
  "int_neg a = wrap64 (- a)"

definition int_quo :: "int \<Rightarrow> int \<Rightarrow> int" where
  "int_quo a b = wrap64 (a sdiv b)"

text \<open>
  \<open>float64\<close> values are modelled by real numbers: \<open>float64(n)\<close> is \<open>real_of_int n\<close>,
  \<open>math.Sqrt\<close>, \<open>math.Cos\<close> and \<open>math.Sin\<close> are \<open>sqrt\<close>, \<open>cos\<close> and \<open>sin\<close>, and the
  rounding of the machine operations is left out. The conversion \<open>int(f)\<close> truncates towards
  zero.
\<close>

definition float_to_int :: "real \<Rightarrow> int" where
  "float_to_int f = (if 0 \<le> f then \<lfloor>f\<rfloor> else \<lceil>f\<rceil>)"

section \<open>The \<open>image\<close> package\<close>

datatype RGBA = RGBA (rgba_R: "8 word") (rgba_G: "8 word") (rgba_B: "8 word") (rgba_A: "8 word")

record Rectangle =
  MinX :: int
  MinY :: int
  MaxX :: int
  MaxY :: int

text \<open>\<open>image.Rect\<close> swaps its coordinates where needed, so that \<open>Min \<le> Max\<close>.\<close>

definition image_Rect :: "int \<Rightarrow> int \<Rightarrow> int \<Rightarrow> int \<Rightarrow> Rectangle" where
  "image_Rect x0 y0 x1 y1 =
     \<lparr>MinX = min x0 x1, MinY = min y0 y1, MaxX = max x0 x1, MaxY = max y0 y1\<rparr>"

definition Dx :: "Rectangle \<Rightarrow> int" where
  "Dx r = MaxX r - MinX r"

definition Dy :: "Rectangle \<Rightarrow> int" where
  "Dy r = MaxY r - MinY r"

definition point_In :: "int \<Rightarrow> int \<Rightarrow> Rectangle \<Rightarrow> bool" where
  "point_In x y r \<longleftrightarrow> MinX r \<le> x \<and> x < MaxX r \<and> MinY r \<le> y \<and> y < MaxY r"

text \<open>
  An \<open>image.RGBA\<close>: its bounds and its pixels. The byte slice \<open>Pix\<close> with its stride is
  abstracted to a function from coordinates to colours. \<open>At\<close> returns the zero colour and
  \<open>Set\<close> does nothing outside the bounds, as in the library. \<open>image.NewRGBA\<close> gives a
  zeroed buffer; it panics on a rectangle whose buffer length does not fit an \<open>int\<close>, and
  an allocation can fail: the model covers the runs in which both images are allocated.
\<close>

record Image =
  Pix :: "int \<times> int \<Rightarrow> RGBA"
  Rect :: Rectangle

definition Transparent :: RGBA where
  "Transparent = RGBA 0 0 0 0"

definition NewRGBA :: "Rectangle \<Rightarrow> Image" where
  "NewRGBA r = \<lparr>Pix = (\<lambda>p. RGBA 0 0 0 0), Rect = r\<rparr>"

definition At :: "Image \<Rightarrow> int \<Rightarrow> int \<Rightarrow> RGBA" where
  "At img x y = (if point_In x y (Rect img) then Pix img (x, y) else RGBA 0 0 0 0)"

definition Set_pixel :: "Image \<Rightarrow> int \<Rightarrow> int \<Rightarrow> RGBA \<Rightarrow> Image" where
  "Set_pixel img x y c =
     (if point_In x y (Rect img) then img\<lparr>Pix := (Pix img)((x, y) := c)\<rparr> else img)"

section \<open>Loops\<close>

text \<open>\<open>for i := a; i < n; i++ { body }\<close>, the state passed through the body.\<close>

function for_range :: "int \<Rightarrow> int \<Rightarrow> (int \<Rightarrow> 's \<Rightarrow> 's) \<Rightarrow> 's \<Rightarrow> 's" where
  "for_range i n body s = (if i < n then for_range (i + 1) n body (body i s) else s)"
  by pat_completeness auto
termination
  by (relation "measure (\<lambda>(i, n, body, s). nat (n - i))") auto

declare for_range.simps [simp del]

text \<open>
  \<open>for i := a; i < e; i += step { body }\<close>. Nothing makes \<open>step\<close> positive, so the loop
  may run forever: it is a partial function, and not returning is the value \<open>None\<close>.
\<close>

partial_function (option) for_step ::
  "int \<Rightarrow> int \<Rightarrow> int \<Rightarrow> (int \<Rightarrow> 's \<Rightarrow> 's option) \<Rightarrow> 's \<Rightarrow> 's option" where
  "for_step i e step body s =
     (if i < e then Option.bind (body i s) (\<lambda>s'. for_step (int_add i step) e step body s')
      else Some s)"

text \<open>
  The values of the loop variable at which a stepping loop with a positive step runs its
  body: \<open>i\<close>, \<open>i + step\<close>, ... as long as they are below \<open>e\<close>.
\<close>

function steps :: "int \<Rightarrow> int \<Rightarrow> int \<Rightarrow> int list" where
  "steps i e step = (if 0 < step \<and> i < e then i # steps (i + step) e step else [])"
  by pat_completeness auto
termination
  by (relation "measure (\<lambda>(i, e, step). nat (e - i))") auto

declare steps.simps [simp del]

section \<open>The watermark configuration\<close>

record WatermarkConfig =
  angle :: real
  imageRotation :: real
  fontSize :: real
  spaceCount :: int
  color :: "32 word"
  alpha :: "32 word"
  spacingX :: int
  spacingY :: int
  fontData :: "8 word list"

text \<open>The global \<open>watermarkConfig\<close>; \<open>ttf\<close> stands for the bytes of \<open>goregular.TTF\<close>.\<close>

definition watermarkConfig :: "8 word list \<Rightarrow> WatermarkConfig" where
  "watermarkConfig ttf =
     \<lparr>angle = 0, imageRotation = 320, fontSize = 20, spaceCount = 5,
      color = 0x00ffffff, alpha = 7, spacingX = 250, spacingY = 125, fontData = ttf\<rparr>"

section \<open>\<open>createWatermarkImage\<close>\<close>


definition canvasSize :: "int \<Rightarrow> int \<Rightarrow> int" where
  "canvasSize width height =
     int_quo
       (int_mul
          (float_to_int
             (sqrt (real_of_int (int_add (int_mul width width) (int_mul height height)))))
          5)
       4"

text \<open>The loop that sets every pixel inside the bounds to \<open>image.Transparent\<close>.\<close>

definition clear_canvas :: "Image \<Rightarrow> Image" where
  "clear_canvas img =
     (let bounds = Rect img in
      for_range (MinY bounds) (MaxY bounds)
        (\<lambda>y. for_range (MinX bounds) (MaxX bounds) (\<lambda>x im. Set_pixel im x y Transparent))
        img)"

text \<open>\<open>spacing * 4 / 3\<close>, in Go's integer arithmetic.\<close>

definition magnify :: "int \<Rightarrow> int" where
  "magnify spacing = int_quo (int_mul spacing 4) 3"

definition effSpacingX :: "WatermarkConfig \<Rightarrow> int" where
  "effSpacingX cfg = magnify (spacingX cfg)"

definition effSpacingY :: "WatermarkConfig \<Rightarrow> int" where
  "effSpacingY cfg = magnify (spacingY cfg)"

definition tile_start :: "int \<Rightarrow> int" where
  "tile_start cs = int_quo (int_neg cs) 2"

definition tile_end :: "int \<Rightarrow> int" where
  "tile_end cs = int_quo (int_mul cs 3) 2"

text \<open>
  The two nested loops over the tile anchors, with the loop body a parameter: \<open>body x y\<close>
  is run for every anchor visited.
\<close>

definition tile_loops ::
  "int \<Rightarrow> int \<Rightarrow> int \<Rightarrow> (int \<Rightarrow> int \<Rightarrow> 's \<Rightarrow> 's) \<Rightarrow> 's \<Rightarrow> 's option" where
  "tile_loops cs stepX stepY body st =
     for_step (tile_start cs) (tile_end cs) stepY
       (\<lambda>y. for_step (tile_start cs) (tile_end cs) stepX (\<lambda>x s. Some (body x y s)))
       st"

text \<open>The tile anchors \<open>(x, y)\<close> in the order of the iteration: \<open>y\<close> outside, \<open>x\<close> inside.\<close>

definition tile_anchors :: "int \<Rightarrow> int \<Rightarrow> int \<Rightarrow> (int \<times> int) list" where
  "tile_anchors cs stepX stepY =
     concat (map (\<lambda>y. map (\<lambda>x. (x, y)) (steps (tile_start cs) (tile_end cs) stepX))
       (steps (tile_start cs) (tile_end cs) stepY))"





section \<open>\<open>rotateAndCrop\<close>\<close>

definition rotate_pixel ::
  "Image \<Rightarrow> real \<Rightarrow> real \<Rightarrow> real \<Rightarrow> real \<Rightarrow> real \<Rightarrow> real \<Rightarrow> real \<Rightarrow>
   int \<Rightarrow> int \<Rightarrow> Image \<Rightarrow> Image" where
  "rotate_pixel img rad w h cx cy newCX newCY y x dst =
     (let dx = real_of_int x - newCX;
          dy = real_of_int y - newCY;
          oldX = dx * cos (- rad) - dy * sin (- rad) + cx;
          oldY = dx * sin (- rad) + dy * cos (- rad) + cy
      in if 0 \<le> oldX \<and> oldX < w \<and> 0 \<le> oldY \<and> oldY < h
         then Set_pixel dst x y (At img (float_to_int oldX) (float_to_int oldY))
         else dst)"

definition rotateAndCrop :: "Image \<Rightarrow> real \<Rightarrow> int \<Rightarrow> int \<Rightarrow> Image" where
  "rotateAndCrop img deg targetWidth targetHeight =
     (let rad = deg * pi / 180;
          bounds = Rect img;
          w = real_of_int (Dx bounds);
          h = real_of_int (Dy bounds);
          dst = NewRGBA (image_Rect 0 0 targetWidth targetHeight);
          cx = w / 2;
          cy = h / 2;
          newCX = real_of_int targetWidth / 2;
          newCY = real_of_int targetHeight / 2
      in for_range 0 targetHeight
           (\<lambda>y. for_range 0 targetWidth (rotate_pixel img rad w h cx cy newCX newCY y))
           dst)"

text \<open>
  The inverse mapping of the resampler as the specification words it, to compare
  \<open>rotateAndCrop\<close> with: the source point of the destination pixel \<open>(x, y)\<close>, and the test
  that a point lies within the bounds of the canvas.
\<close>

definition spec_source_point ::
  "Image \<Rightarrow> real \<Rightarrow> int \<Rightarrow> int \<Rightarrow> int \<Rightarrow> int \<Rightarrow> real \<times> real" where
  "spec_source_point cnv rotationDegrees targetWidth targetHeight x y =
     (let rad = rotationDegrees * pi / 180;
          cx = real_of_int (Dx (Rect cnv)) / 2;
          cy = real_of_int (Dy (Rect cnv)) / 2;
          ncx = real_of_int targetWidth / 2;
          ncy = real_of_int targetHeight / 2;
          dx = real_of_int x - ncx;
          dy = real_of_int y - ncy
      in (dx * cos (- rad) - dy * sin (- rad) + cx,
          dx * sin (- rad) + dy * cos (- rad) + cy))"



section \<open>Properties of \<open>extractUsername\<close>\<close>

lemma strings_Index_absent: "c \<notin> set s \<Longrightarrow> strings_Index s c = - 1"
  by (induction s) (auto simp: Let_def)

lemma strings_Index_present:
  "c \<in> set s \<Longrightarrow>
     0 \<le> strings_Index s c \<and> nat (strings_Index s c) < length s \<and>
     s ! nat (strings_Index s c) = c \<and> c \<notin> set (take (nat (strings_Index s c)) s)"
proof (induction s)
  case Nil
  then show ?case by simp
next
  case (Cons x xs)
  show ?case
  proof (cases "x = c")
    case True
    then show ?thesis by simp
  next
    case False
    with Cons.prems have mem: "c \<in> set xs" by simp
    from Cons.IH [OF mem] False show ?thesis
      by (simp add: Let_def nat_add_distrib)
  qed
qed

lemma strings_LastIndex_absent: "c \<notin> set s \<Longrightarrow> strings_LastIndex s c = - 1"
  by (induction s) (auto simp: Let_def)

lemma strings_LastIndex_present:
  "c \<in> set s \<Longrightarrow>
     0 \<le> strings_LastIndex s c \<and> nat (strings_LastIndex s c) < length s \<and>
     s ! nat (strings_LastIndex s c) = c \<and>
     c \<notin> set (drop (Suc (nat (strings_LastIndex s c))) s)"
proof (induction s)
  case Nil
  then show ?case by simp
next
  case (Cons x xs)
  show ?case
  proof (cases "c \<in> set xs")
    case True
    from Cons.IH [OF True] show ?thesis
      by (simp add: Let_def Suc_nat_eq_nat_zadd1 [symmetric] add.commute)
  next
    case False
    with Cons.prems have "x = c" by simp
    with False show ?thesis
      by (simp add: Let_def strings_LastIndex_absent)
  qed
qed

lemma extractUsername_backslash:
  assumes "backslash \<in> set s"
  shows "(\<exists>pre. s = pre @ backslash # extractUsername s) \<and>
         backslash \<notin> set (extractUsername s)"
proof -
  let ?i = "strings_LastIndex s backslash"
  from strings_LastIndex_present [OF assms]
  have i: "0 \<le> ?i" "nat ?i < length s" "s ! nat ?i = backslash"
    and rest: "backslash \<notin> set (drop (Suc (nat ?i)) s)"
    by simp_all
  have suc: "nat (?i + 1) = Suc (nat ?i)"
    using i(1) by simp
  have eq: "extractUsername s = drop (Suc (nat ?i)) s"
    using i(1) suc by (simp add: extractUsername_def Let_def)
  have "s = take (nat ?i) s @ s ! nat ?i # drop (Suc (nat ?i)) s"
    using i(2) by (simp add: id_take_nth_drop [symmetric])
  then have "s = take (nat ?i) s @ backslash # extractUsername s"
    using i(3) eq by simp
  moreover have "backslash \<notin> set (extractUsername s)"
    using rest eq by simp
  ultimately show ?thesis by (intro conjI exI)
qed

lemma extractUsername_at:
  assumes "backslash \<notin> set s" and "at_sign \<in> set s"
  shows "(\<exists>suf. s = extractUsername s @ at_sign # suf) \<and>
         at_sign \<notin> set (extractUsername s)"
proof -
  let ?j = "strings_Index s at_sign"
  from strings_Index_present [OF assms(2)]
  have j: "0 \<le> ?j" "nat ?j < length s" "s ! nat ?j = at_sign"
    and rest: "at_sign \<notin> set (take (nat ?j) s)"
    by simp_all
  have eq: "extractUsername s = take (nat ?j) s"
    using j(1) assms(1) by (simp add: extractUsername_def Let_def strings_LastIndex_absent)
  have "s = take (nat ?j) s @ s ! nat ?j # drop (Suc (nat ?j)) s"
    using j(2) by (simp add: id_take_nth_drop [symmetric])
  then have "s = extractUsername s @ at_sign # drop (Suc (nat ?j)) s"
    using j(3) eq by simp
  moreover have "at_sign \<notin> set (extractUsername s)"
    using rest eq by simp
  ultimately show ?thesis by (intro conjI exI)
qed

lemma extractUsername_plain:
  "backslash \<notin> set s \<Longrightarrow> at_sign \<notin> set s \<Longrightarrow> extractUsername s = s"
  by (simp add: extractUsername_def Let_def strings_LastIndex_absent strings_Index_absent)

lemma extractUsername_example:
  "extractUsername (''domain'' @ [backslash] @ ''name@host'') = ''name@host''"
  by (simp add: extractUsername_def backslash_def at_sign_def Let_def)

text \<open>
  Claim C10. For every input string, \<open>extractUsername\<close> returns the part after the last
  backslash when the string contains a backslash (so the result holds no backslash);
  otherwise the part before the first \<open>@\<close> when the string contains one (so the result
  holds no \<open>@\<close>); otherwise the string unchanged. For \<open>domain\name@host\<close> the backslash
  rule wins and the result is \<open>name@host\<close>, with its \<open>@\<close> suffix kept.
\<close>

theorem extractUsername_spec:
  "(backslash \<in> set s \<longrightarrow>
      (\<exists>pre. s = pre @ backslash # extractUsername s) \<and>
      backslash \<notin> set (extractUsername s)) \<and>
   (backslash \<notin> set s \<and> at_sign \<in> set s \<longrightarrow>
      (\<exists>suf. s = extractUsername s @ at_sign # suf) \<and>
      at_sign \<notin> set (extractUsername s)) \<and>
   (backslash \<notin> set s \<and> at_sign \<notin> set s \<longrightarrow> extractUsername s = s) \<and>
   extractUsername (''domain'' @ [backslash] @ ''name@host'') = ''name@host''"
  using extractUsername_backslash [of s] extractUsername_at [of s]
    extractUsername_plain [of s] extractUsername_example
  by blast

theorem extractUsername_spec_witness:
  "backslash \<in> set (''domain'' @ [backslash] @ ''name@host'') \<and>
   (\<exists>pre. ''domain'' @ [backslash] @ ''name@host'' =
      pre @ backslash # extractUsername (''domain'' @ [backslash] @ ''name@host'')) \<and>
   backslash \<notin> set (extractUsername (''domain'' @ [backslash] @ ''name@host'')) \<and>
   extractUsername (''domain'' @ [backslash] @ ''name@host'') = ''name@host''"
proof -
  let ?s = "''domain'' @ [backslash] @ ''name@host''"
  have mem: "backslash \<in> set ?s" by simp
  from extractUsername_spec [of ?s] mem
  have "(\<exists>pre. ?s = pre @ backslash # extractUsername ?s) \<and>
        backslash \<notin> set (extractUsername ?s)"
    and "extractUsername ?s = ''name@host''"
    by blast+
  with mem show ?thesis by blast
qed

section \<open>Integer arithmetic and loops\<close>

lemma wrap64_id: "- (2 ^ 63) \<le> k \<Longrightarrow> k < 2 ^ 63 \<Longrightarrow> wrap64 k = k"
  by (simp add: wrap64_def)

lemma for_range_fold: "for_range i n body s = fold body [i..n - 1] s"
proof (induction i n body s rule: for_range.induct)
  case (1 i n body s)
  show ?case
  proof (cases "i < n")
    case True
    then have "[i..n - 1] = i # [i + 1..n - 1]"
      by (simp add: upto_rec1)
    with True 1 show ?thesis
      by (subst for_range.simps) simp
  next
    case False
    then show ?thesis
      by (subst for_range.simps) simp
  qed
qed

lemma for_step_total:
  "0 < step \<Longrightarrow> - (2 ^ 63) \<le> i \<Longrightarrow> e + step \<le> 2 ^ 63 \<Longrightarrow>
     for_step i e step (\<lambda>j s. Some (f j s)) st = Some (fold f (steps i e step) st)"
proof (induction i e step arbitrary: st rule: steps.induct)
  case (1 i e step)
  show ?case
  proof (cases "i < e")
    case True
    have next_i: "int_add i step = i + step"
      using True 1(2,3,4) by (simp add: int_add_def wrap64_id)
    have "for_step (i + step) e step (\<lambda>j s. Some (f j s)) (f i st) =
          Some (fold f (steps (i + step) e step) (f i st))"
      using 1(1) [of "f i st"] True 1(2,3,4) by simp
    then show ?thesis
      using True 1(2) next_i
      by (subst for_step.simps, subst steps.simps) simp
  next
    case False
    then show ?thesis
      by (subst for_step.simps, subst steps.simps) simp
  qed
qed





lemma float_to_int_nonneg: "0 \<le> f \<Longrightarrow> float_to_int f = \<lfloor>f\<rfloor>"
  by (simp add: float_to_int_def)

lemma sdiv_nonneg: "0 \<le> k \<Longrightarrow> 0 < l \<Longrightarrow> (k::int) sdiv l = k div l"
  by (cases "k = 0") (simp_all add: signed_divide_int_def)

lemma sdiv_neg: "k < 0 \<Longrightarrow> 0 < l \<Longrightarrow> (k::int) sdiv l = - ((- k) div l)"
  by (simp add: signed_divide_int_def)

lemma floor_of_int_div_numeral:
  "\<lfloor>real_of_int k / numeral n\<rfloor> = k div numeral n"
  by (metis floor_divide_of_int_eq of_int_numeral)

lemma magnify_trunc:
  assumes "- (2 ^ 61) \<le> s" "s < 2 ^ 61"
  shows "magnify s = float_to_int (real_of_int s * 4 / 3)"
proof (cases "0 \<le> s")
  case True
  have "real_of_int s * 4 / 3 = real_of_int (s * 4) / 3" by simp
  then have fl: "\<lfloor>real_of_int s * 4 / 3\<rfloor> = (s * 4) div 3"
    by (simp only: floor_of_int_div_numeral)
  have "0 \<le> (s * 4) div 3" "(s * 4) div 3 \<le> s * 4"
    using True by presburger+
  then have "magnify s = (s * 4) div 3"
    using True assms by (simp add: magnify_def int_quo_def int_mul_def wrap64_id sdiv_nonneg)
  with fl True show ?thesis by (simp add: float_to_int_nonneg)
next
  case False
  then have neg: "s * 4 < 0" by simp
  have "- (real_of_int s * 4 / 3) = real_of_int (- s * 4) / 3" by simp
  then have fl: "\<lfloor>- (real_of_int s * 4 / 3)\<rfloor> = (- s * 4) div 3"
    by (simp only: floor_of_int_div_numeral)
  have ce: "\<lceil>real_of_int s * 4 / 3\<rceil> = - ((- s * 4) div 3)"
    unfolding ceiling_def fl ..
  have "0 \<le> (- s * 4) div 3" "(- s * 4) div 3 \<le> - s * 4"
    using False by presburger+
  then have "magnify s = - ((- s * 4) div 3)"
    using neg assms sdiv_neg [OF neg, of 3]
    by (simp add: magnify_def int_quo_def int_mul_def wrap64_id)
  moreover have "real_of_int s * 4 / 3 < 0" using False by simp
  ultimately show ?thesis using ce by (simp add: float_to_int_def)
qed



lemma tile_start_eq: "0 \<le> cs \<Longrightarrow> cs < 2 ^ 61 \<Longrightarrow> tile_start cs = - (cs div 2)"
proof (cases "cs = 0")
  case True
  then show ?thesis by (simp add: tile_start_def int_quo_def int_neg_def wrap64_def)
next
  case False
  assume a: "0 \<le> cs" "cs < 2 ^ 61"
  with False have neg: "- cs < 0" by simp
  have "0 \<le> cs div 2" "cs div 2 \<le> cs"
    using a by presburger+
  then show ?thesis
    using a sdiv_neg [OF neg, of 2]
    by (simp add: tile_start_def int_quo_def int_neg_def wrap64_id)
qed

lemma tile_end_eq: "0 \<le> cs \<Longrightarrow> cs < 2 ^ 61 \<Longrightarrow> tile_end cs = cs * 3 div 2"
proof -
  assume a: "0 \<le> cs" "cs < 2 ^ 61"
  have "0 \<le> cs * 3 div 2" "cs * 3 div 2 \<le> cs * 3"
    using a by presburger+
  then show ?thesis
    using a by (simp add: tile_end_def int_quo_def int_mul_def wrap64_id sdiv_nonneg)
qed

section \<open>The canvas size\<close>

lemma wrap64_id_nonneg: "0 \<le> k \<Longrightarrow> k < 2 ^ 52 \<Longrightarrow> wrap64 k = k"
  by (rule wrap64_id) simp_all

lemma floor_sqrt_bounds:
  assumes "0 \<le> n"
  shows "0 \<le> \<lfloor>sqrt (real_of_int n)\<rfloor> \<and> \<lfloor>sqrt (real_of_int n)\<rfloor> \<le> n"
proof -
  have "sqrt (real_of_int n) \<le> real_of_int n"
  proof (cases "n = 0")
    case True
    then show ?thesis by simp
  next
    case False
    with assms have "1 \<le> real_of_int n" by simp
    then have "real_of_int n \<le> (real_of_int n)\<^sup>2"
      by (simp add: power2_eq_square)
    then show ?thesis
      using assms by (intro real_le_lsqrt) simp_all
  qed
  then have "\<lfloor>sqrt (real_of_int n)\<rfloor> \<le> n"
    by (simp add: floor_le_iff) 
  moreover have "0 \<le> \<lfloor>sqrt (real_of_int n)\<rfloor>"
    using assms by simp
  ultimately show ?thesis by simp
qed

lemma wrap64_small: "0 \<le> k \<Longrightarrow> k < 2 ^ 55 \<Longrightarrow> wrap64 k = k"
  by (rule wrap64_id) simp_all

lemma canvasSize_eq:
  assumes "0 \<le> w" "0 \<le> h" "w * w + h * h < 2 ^ 52"
  shows "canvasSize w h = \<lfloor>sqrt (real_of_int (w * w + h * h))\<rfloor> * 5 div 4"
proof -
  define n where "n = w * w + h * h"
  define r where "r = \<lfloor>sqrt (real_of_int n)\<rfloor>"
  have ww: "0 \<le> w * w" "0 \<le> h * h" by simp_all
  then have n: "0 \<le> n" "n < 2 ^ 52"
    using assms(3) by (simp_all add: n_def)
  have lt: "w * w < 2 ^ 52" "h * h < 2 ^ 52"
    using ww assms(3) by linarith+
  have "int_mul w w = w * w"
    unfolding int_mul_def using ww(1) lt(1) by (rule wrap64_id_nonneg)
  moreover have "int_mul h h = h * h"
    unfolding int_mul_def using ww(2) lt(2) by (rule wrap64_id_nonneg)
  moreover have "wrap64 n = n"
    using n by (rule wrap64_id_nonneg)
  ultimately have sq: "int_add (int_mul w w) (int_mul h h) = n"
    unfolding int_add_def n_def by simp
  from floor_sqrt_bounds [OF n(1)] have r: "0 \<le> r" "r \<le> n"
    by (simp_all add: r_def)
  have tr: "float_to_int (sqrt (real_of_int n)) = r"
    using n(1) by (simp add: float_to_int_nonneg r_def)
  have r5: "0 \<le> r * 5" "r * 5 < 2 ^ 55"
    using r n(2) by simp_all
  then have m: "int_mul r 5 = r * 5"
    unfolding int_mul_def by (rule wrap64_small)
  have q: "0 \<le> r * 5 div 4" "r * 5 div 4 \<le> r * 5"
    using r(1) by presburger+
  then have "r * 5 div 4 < 2 ^ 55"
    using r5(2) by linarith
  with q(1) have "wrap64 (r * 5 div 4) = r * 5 div 4"
    by (rule wrap64_small)
  then have "int_quo (r * 5) 4 = r * 5 div 4"
    using r5(1) by (simp add: int_quo_def sdiv_nonneg)
  then show ?thesis
    unfolding canvasSize_def sq tr m n_def [symmetric] r_def [symmetric] .
qed

lemma floor_sqrt_4852800: "\<lfloor>sqrt (real_of_int 4852800)\<rfloor> = 2202"
proof -
  have "2202 \<le> sqrt 4852800"
    by (rule real_le_rsqrt) simp
  moreover have "sqrt 4852800 < 2203"
    by (rule real_less_lsqrt) simp_all
  ultimately show ?thesis
    by (simp add: floor_eq_iff)
qed

lemma canvasSize_1920_1080: "canvasSize 1920 1080 = 2752"
  using canvasSize_eq [of 1920 1080] floor_sqrt_4852800 by simp

lemma ceiling_formula_1920_1080:
  "\<lceil>sqrt (real_of_int (1920 * 1920 + 1080 * 1080)) * 5 / 4\<rceil> = 2754"
proof -
  have "11012 / 5 < sqrt 4852800"
    by (rule real_less_rsqrt) (simp add: power2_eq_square)
  moreover have "sqrt 4852800 \<le> 11016 / 5"
    by (rule real_le_lsqrt) (simp_all add: power2_eq_square)
  ultimately show ?thesis
    by (simp add: ceiling_eq_iff)
qed



section \<open>Canvas size and effective spacing: the claims\<close>

text \<open>
  Claim C1, as amended. For target sizes \<open>w\<close> and \<open>h\<close> that are not negative, with
  \<open>w\<^sup>2 + h\<^sup>2\<close> below \<open>2 ^ 52\<close> (where the conversion to \<open>float64\<close> and its square root lose
  nothing that the truncation keeps), the side of the canvas is the square root truncated
  to an integer, times 5, divided by 4 with the quotient truncated again:
  \<open>floor (floor (sqrt (w\<^sup>2 + h\<^sup>2)) * 5 / 4)\<close>. For 1920 by 1080 this is 2752.
\<close>

theorem canvasSize_truncates:
  assumes "0 \<le> w" "0 \<le> h" "w * w + h * h < 2 ^ 52"
  shows "canvasSize w h =
         \<lfloor>real_of_int \<lfloor>sqrt (real_of_int (w * w + h * h))\<rfloor> * 5 / 4\<rfloor>"
proof -
  define r where "r = \<lfloor>sqrt (real_of_int (w * w + h * h))\<rfloor>"
  have "real_of_int r * 5 / 4 = real_of_int (r * 5) / 4" by simp
  then have "\<lfloor>real_of_int r * 5 / 4\<rfloor> = r * 5 div 4"
    by (simp only: floor_of_int_div_numeral)
  then show ?thesis
    using canvasSize_eq [OF assms] by (simp only: r_def)
qed

theorem canvasSize_truncates_witness:
  "(0::int) \<le> 1920 \<and> (0::int) \<le> 1080 \<and> (1920 * 1920 + 1080 * 1080 :: int) < 2 ^ 52 \<and>
   canvasSize 1920 1080 =
     \<lfloor>real_of_int \<lfloor>sqrt (real_of_int (1920 * 1920 + 1080 * 1080))\<rfloor> * 5 / 4\<rfloor> \<and>
   \<lfloor>real_of_int \<lfloor>sqrt (real_of_int (1920 * 1920 + 1080 * 1080))\<rfloor> * 5 / 4\<rfloor> = (2752::int)"
proof -
  have "\<lfloor>real_of_int \<lfloor>sqrt (real_of_int (1920 * 1920 + 1080 * 1080))\<rfloor> * 5 / 4\<rfloor> = (2752::int)"
    using floor_sqrt_4852800 by simp
  then show ?thesis
    using canvasSize_truncates [of 1920 1080] by simp
qed

theorem canvasSize_ceiling_counterexample:
  "canvasSize 1920 1080 = 2752 \<and>
   \<lceil>sqrt (real_of_int (1920 * 1920 + 1080 * 1080)) * 5 / 4\<rceil> = (2754::int) \<and>
   canvasSize 1920 1080 \<noteq> \<lceil>sqrt (real_of_int (1920 * 1920 + 1080 * 1080)) * 5 / 4\<rceil> \<and>
   \<not> \<bar>canvasSize 1920 1080 - 2754\<bar> \<le> 1"
  using canvasSize_1920_1080 ceiling_formula_1920_1080 by simp

text \<open>
  Claim C7, as amended. For configured spacings between \<open>- 2 ^ 61\<close> and \<open>2 ^ 61\<close>, the
  effective spacing of the tiling loop is the configured spacing times 4/3 truncated
  towards zero to an integer, for the horizontal and for the vertical pitch alike:
  250 gives 333 and 125 gives 166.
\<close>

theorem effective_spacing_truncates:
  assumes "- (2 ^ 61) \<le> spacingX cfg" "spacingX cfg < 2 ^ 61"
    and "- (2 ^ 61) \<le> spacingY cfg" "spacingY cfg < 2 ^ 61"
  shows "effSpacingX cfg = float_to_int (real_of_int (spacingX cfg) * 4 / 3) \<and>
         effSpacingY cfg = float_to_int (real_of_int (spacingY cfg) * 4 / 3)"
  using magnify_trunc [OF assms(1,2)] magnify_trunc [OF assms(3,4)]
  by (simp add: effSpacingX_def effSpacingY_def)

theorem effective_spacing_truncates_witness:
  "- (2 ^ 61) \<le> spacingX (watermarkConfig []) \<and> spacingX (watermarkConfig []) < 2 ^ 61 \<and>
   - (2 ^ 61) \<le> spacingY (watermarkConfig []) \<and> spacingY (watermarkConfig []) < 2 ^ 61 \<and>
   effSpacingX (watermarkConfig []) = 333 \<and> effSpacingY (watermarkConfig []) = 166"
  using effective_spacing_truncates [of "watermarkConfig []"]
  by (simp add: watermarkConfig_def float_to_int_def)

theorem effective_spacing_counterexample:
  "effSpacingX (watermarkConfig []) = 333 \<and>
   real_of_int (effSpacingX (watermarkConfig [])) \<noteq>
     real_of_int (spacingX (watermarkConfig [])) * 4 / 3 \<and>
   effSpacingY (watermarkConfig []) = 166 \<and>
   real_of_int (effSpacingY (watermarkConfig [])) \<noteq>
     real_of_int (spacingY (watermarkConfig [])) * 4 / 3"
  by (simp add: effSpacingX_def effSpacingY_def magnify_def int_quo_def int_mul_def
      wrap64_def watermarkConfig_def signed_divide_int_def)

section \<open>The tiling loops\<close>

lemma fold_grid:
  "fold (\<lambda>y. fold (\<lambda>x. body x y) xs) ys st =
   fold (\<lambda>(x, y). body x y) (concat (map (\<lambda>y. map (\<lambda>x. (x, y)) xs) ys)) st"
proof (induction ys arbitrary: st)
  case Nil
  then show ?case by simp
next
  case (Cons y ys)
  have "fold (\<lambda>(x, y). body x y) (map (\<lambda>x. (x, y)) xs) st = fold (\<lambda>x. body x y) xs st"
    by (simp add: fold_map comp_def)
  with Cons show ?case by simp
qed

lemma tile_range:
  assumes "0 \<le> cs" "cs < 2 ^ 61"
  shows "- (2 ^ 63) \<le> tile_start cs" "tile_start cs \<le> 0" "tile_end cs < 2 ^ 62"
    "0 \<le> tile_end cs"
proof -
  from assms have c: "0 \<le> cs" "cs < 2305843009213693952" by simp_all
  have "0 \<le> cs div 2" "cs div 2 \<le> cs" "0 \<le> cs * 3 div 2"
    "cs * 3 div 2 < 4611686018427387904"
    using c by presburger+
  then show "- (2 ^ 63) \<le> tile_start cs" "tile_start cs \<le> 0" "tile_end cs < 2 ^ 62"
    "0 \<le> tile_end cs"
    using c by (simp_all add: tile_start_eq [OF assms] tile_end_eq [OF assms])
qed


lemma tile_loops_total:
  assumes "0 \<le> cs" "cs < 2 ^ 61" "0 < sx" "sx < 2 ^ 62" "0 < sy" "sy < 2 ^ 62"
  shows "tile_loops cs sx sy body st =
         Some (fold (\<lambda>(x, y). body x y) (tile_anchors cs sx sy) st)"
proof -
  let ?S = "tile_start cs" and ?E = "tile_end cs"
  note rng = tile_range [OF assms(1,2)]
  have ex: "?E + sx \<le> 2 ^ 63" and ey: "?E + sy \<le> 2 ^ 63"
    using rng(3) assms(4,6) by simp_all
  have inner: "for_step ?S ?E sx (\<lambda>x s. Some (body x y s)) s =
               Some (fold (\<lambda>x. body x y) (steps ?S ?E sx) s)" for y s
    using for_step_total [OF assms(3) rng(1) ex, of "\<lambda>x. body x y" s] .
  have "tile_loops cs sx sy body st =
        for_step ?S ?E sy (\<lambda>y s. Some (fold (\<lambda>x. body x y) (steps ?S ?E sx) s)) st"
    unfolding tile_loops_def inner ..
  also have "\<dots> = Some (fold (\<lambda>y. fold (\<lambda>x. body x y) (steps ?S ?E sx)) (steps ?S ?E sy) st)"
    using for_step_total [OF assms(5) rng(1) ey] .
  finally show ?thesis
    by (simp only: fold_grid tile_anchors_def)
qed







section \<open>The tile anchors and the draw calls\<close>

lemma steps_map:
  "0 < s \<Longrightarrow> steps a e s = map (\<lambda>k. a + int k * s) [0..<length (steps a e s)]"
proof (induction a e s rule: steps.induct)
  case (1 i e step)
  show ?case
  proof (cases "i < e")
    case True
    let ?rest = "steps (i + step) e step"
    have st: "steps i e step = i # ?rest"
      using True 1(2) by (subst steps.simps) simp
    have len: "length (steps i e step) = Suc (length ?rest)"
      by (simp only: st length_Cons)
    have "?rest = map (\<lambda>k. i + step + int k * step) [0..<length ?rest]"
      using 1(1) True 1(2) by simp
    also have "\<dots> = map (\<lambda>k. i + int k * step) (map Suc [0..<length ?rest])"
      by (simp add: algebra_simps)
    finally have "i # ?rest = map (\<lambda>k. i + int k * step) (0 # map Suc [0..<length ?rest])"
      by simp
    also have "0 # map Suc [0..<length ?rest] = [0..<Suc (length ?rest)]"
      by (simp add: upt_conv_Cons map_Suc_upt del: upt_Suc)
    finally have "i # ?rest = map (\<lambda>k. i + int k * step) [0..<Suc (length ?rest)]" .
    then show ?thesis
      unfolding len by (simp only: st)
  next
    case False
    then have "steps i e step = []" by (subst steps.simps) simp
    then show ?thesis by simp
  qed
qed

lemma steps_length:
  "0 < s \<Longrightarrow> k < length (steps a e s) \<longleftrightarrow> a + int k * s < e"
proof (induction a e s arbitrary: k rule: steps.induct)
  case (1 i e step)
  show ?case
  proof (cases "i < e")
    case True
    let ?rest = "steps (i + step) e step"
    have st: "steps i e step = i # ?rest"
      using True 1(2) by (subst steps.simps) simp
    show ?thesis
    proof (cases k)
      case 0
      with True st show ?thesis by simp
    next
      case (Suc j)
      have "j < length ?rest \<longleftrightarrow> i + step + int j * step < e"
        using 1(1) [of j] True 1(2) by simp
      with Suc st show ?thesis by (simp add: algebra_simps)
    qed
  next
    case False
    then have "steps i e step = []" by (subst steps.simps) simp
    moreover have "0 \<le> int k * step" using 1(2) by simp
    ultimately show ?thesis using False by simp
  qed
qed



lemma tile_anchors_6_4_4:
  "tile_anchors 6 4 4 =
     [(- 3, - 3), (1, - 3), (5, - 3), (- 3, 1), (1, 1), (5, 1), (- 3, 5), (1, 5), (5, 5)]"
  by (simp add: tile_anchors_def steps.simps tile_start_def tile_end_def int_quo_def
      int_neg_def int_mul_def wrap64_def signed_divide_int_def)


text \<open>
  Claim C8. For a canvas side \<open>cs\<close> that is not negative and positive steps (in the range
  where no addition wraps), the tiling loops return, having run the body once for every
  tile anchor in order. On both axes the anchors are exactly the values
  \<open>- (cs / 2) + k * step\<close> for \<open>k = 0, 1, ...\<close> that are below \<open>cs * 3 / 2\<close> (integer
  division): they start at \<open>- (cs / 2)\<close>, advance by the step, and stop before \<open>cs * 3 / 2\<close>.
\<close>

theorem tile_iteration_range:
  assumes "0 \<le> cs" "cs < 2 ^ 61" "0 < sx" "sx < 2 ^ 62" "0 < sy" "sy < 2 ^ 62"
  shows "tile_loops cs sx sy body st =
           Some (fold (\<lambda>(x, y). body x y) (tile_anchors cs sx sy) st) \<and>
         (\<exists>nx ny.
            tile_anchors cs sx sy =
              concat (map (\<lambda>j. map (\<lambda>k. (- (cs div 2) + int k * sx, - (cs div 2) + int j * sy))
                [0..<nx]) [0..<ny]) \<and>
            (\<forall>k. k < nx \<longleftrightarrow> - (cs div 2) + int k * sx < cs * 3 div 2) \<and>
            (\<forall>j. j < ny \<longleftrightarrow> - (cs div 2) + int j * sy < cs * 3 div 2))"
proof -
  let ?S = "- (cs div 2)" and ?E = "cs * 3 div 2"
  have S: "tile_start cs = ?S" and E: "tile_end cs = ?E"
    using assms(1,2) by (simp_all add: tile_start_eq tile_end_eq)
  let ?nx = "length (steps ?S ?E sx)" and ?ny = "length (steps ?S ?E sy)"
  have "tile_anchors cs sx sy =
        concat (map (\<lambda>y. map (\<lambda>x. (x, y)) (map (\<lambda>k. ?S + int k * sx) [0..<?nx]))
          (map (\<lambda>j. ?S + int j * sy) [0..<?ny]))"
    unfolding tile_anchors_def S E
    by (subst steps_map [OF assms(3)], subst steps_map [OF assms(5)]) (rule refl)
  then have "tile_anchors cs sx sy =
        concat (map (\<lambda>j. map (\<lambda>k. (?S + int k * sx, ?S + int j * sy)) [0..<?nx]) [0..<?ny])"
    by (simp add: comp_def)
  moreover have "\<forall>k. k < ?nx \<longleftrightarrow> ?S + int k * sx < ?E"
    by (simp only: steps_length [OF assms(3)]) simp
  moreover have "\<forall>j. j < ?ny \<longleftrightarrow> ?S + int j * sy < ?E"
    by (simp only: steps_length [OF assms(5)]) simp
  ultimately have "\<exists>nx ny.
      tile_anchors cs sx sy =
        concat (map (\<lambda>j. map (\<lambda>k. (?S + int k * sx, ?S + int j * sy)) [0..<nx]) [0..<ny]) \<and>
      (\<forall>k. k < nx \<longleftrightarrow> ?S + int k * sx < ?E) \<and>
      (\<forall>j. j < ny \<longleftrightarrow> ?S + int j * sy < ?E)"
    by (intro exI conjI)
  with tile_loops_total [OF assms, of body st] show ?thesis
    by (intro conjI)
qed


theorem tile_iteration_range_witness:
  "(0::int) \<le> 6 \<and> (6::int) < 2 ^ 61 \<and> (0::int) < 4 \<and> (4::int) < 2 ^ 62 \<and>
   tile_loops 6 4 4 (\<lambda>x y s. s @ [(x, y)]) [] =
     Some [(- 3, - 3), (1, - 3), (5, - 3), (- 3, 1), (1, 1), (5, 1), (- 3, 5), (1, 5), (5, 5)]"
  using tile_iteration_range [THEN conjunct1, of 6 4 4 "\<lambda>x y s. s @ [(x, y)]" "[]"]
  by (simp add: tile_anchors_6_4_4)




section \<open>Painting pixels\<close>

lemma for_range_fold_fun: "for_range i n body = fold body [i..n - 1]"
  by (rule ext) (rule for_range_fold)

lemma Rect_Set_pixel: "Rect (Set_pixel img x y c) = Rect img"
  by (simp add: Set_pixel_def)

lemma Pix_Set_pixel:
  "Pix (Set_pixel img x y c) p =
     (if p = (x, y) \<and> point_In x y (Rect img) then c else Pix img p)"
  by (simp add: Set_pixel_def)

lemma paint_row:
  fixes g :: "int \<Rightarrow> bool" and c :: "int \<Rightarrow> RGBA"
  shows "Rect (fold (\<lambda>x im. if g x then Set_pixel im x y (c x) else im) xs img) = Rect img \<and>
         Pix (fold (\<lambda>x im. if g x then Set_pixel im x y (c x) else im) xs img) (x', y') =
           (if y' = y \<and> x' \<in> set xs \<and> g x' \<and> point_In x' y' (Rect img) then c x'
            else Pix img (x', y'))"
proof (induction xs arbitrary: img)
  case Nil
  then show ?case by simp
next
  case (Cons x xs)
  let ?img = "if g x then Set_pixel img x y (c x) else img"
  have r: "Rect ?img = Rect img" by (simp add: Rect_Set_pixel)
  from Cons [of ?img] show ?case
    by (auto simp: r Pix_Set_pixel)
qed

lemma paint_rows:
  fixes g :: "int \<Rightarrow> int \<Rightarrow> bool" and c :: "int \<Rightarrow> int \<Rightarrow> RGBA"
  shows "Rect (fold (\<lambda>y. fold (\<lambda>x im. if g x y then Set_pixel im x y (c x y) else im) xs)
            ys img) = Rect img \<and>
         Pix (fold (\<lambda>y. fold (\<lambda>x im. if g x y then Set_pixel im x y (c x y) else im) xs)
            ys img) (x', y') =
           (if y' \<in> set ys \<and> x' \<in> set xs \<and> g x' y' \<and> point_In x' y' (Rect img)
            then c x' y' else Pix img (x', y'))"
proof (induction ys arbitrary: img)
  case Nil
  then show ?case by simp
next
  case (Cons y ys)
  let ?img = "fold (\<lambda>x im. if g x y then Set_pixel im x y (c x y) else im) xs img"
  note r = paint_row [of "\<lambda>x. g x y" y "\<lambda>x. c x y" xs img, THEN conjunct1]
  note p = paint_row [of "\<lambda>x. g x y" y "\<lambda>x. c x y" xs img, THEN conjunct2]
  from Cons [of ?img] show ?case
    by (auto simp: r p)
qed

lemma At_paint_rows:
  fixes g :: "int \<Rightarrow> int \<Rightarrow> bool" and c :: "int \<Rightarrow> int \<Rightarrow> RGBA"
  shows "At (fold (\<lambda>y. fold (\<lambda>x im. if g x y then Set_pixel im x y (c x y) else im) xs)
            ys img) x' y' =
           (if y' \<in> set ys \<and> x' \<in> set xs \<and> g x' y' \<and> point_In x' y' (Rect img)
            then c x' y' else At img x' y')"
  using paint_rows [of g c xs ys img x' y'] by (simp add: At_def)

lemma clear_canvas_fold:
  "clear_canvas img =
     fold (\<lambda>y. fold (\<lambda>x im. if True then Set_pixel im x y Transparent else im)
             [MinX (Rect img)..MaxX (Rect img) - 1])
       [MinY (Rect img)..MaxY (Rect img) - 1] img"
  by (simp add: clear_canvas_def Let_def for_range_fold_fun)

lemma clear_canvas_Rect: "Rect (clear_canvas img) = Rect img"
  unfolding clear_canvas_fold
  using paint_rows [of "\<lambda>x y. True" "\<lambda>x y. Transparent"] by blast

lemma clear_canvas_Pix:
  "Pix (clear_canvas img) (x, y) =
     (if point_In x y (Rect img) then Transparent else Pix img (x, y))"
proof -
  have "Pix (clear_canvas img) (x, y) =
        (if y \<in> set [MinY (Rect img)..MaxY (Rect img) - 1] \<and>
            x \<in> set [MinX (Rect img)..MaxX (Rect img) - 1] \<and> True \<and> point_In x y (Rect img)
         then Transparent else Pix img (x, y))"
    unfolding clear_canvas_fold
    using paint_rows [of "\<lambda>x y. True" "\<lambda>x y. Transparent"] by blast
  then show ?thesis
    by (auto simp: point_In_def)
qed

lemma clear_canvas_At: "At (clear_canvas img) x y = Transparent"
  by (simp add: At_def clear_canvas_Rect clear_canvas_Pix Transparent_def)

text \<open>
  Claim C6. The canvas handed to the tiling loops is a new image of \<open>cs\<close> by \<open>cs\<close> pixels
  after the clearing loop. It keeps its bounds, every pixel of its buffer is the transparent
  colour, and so every pixel read from it has alpha 0: nothing is left uninitialised.
\<close>

theorem canvas_initially_transparent:
  "Rect (clear_canvas (NewRGBA (image_Rect 0 0 cs cs))) = image_Rect 0 0 cs cs \<and>
   Pix (clear_canvas (NewRGBA (image_Rect 0 0 cs cs))) (x, y) = Transparent \<and>
   At (clear_canvas (NewRGBA (image_Rect 0 0 cs cs))) x y = Transparent \<and>
   rgba_A (At (clear_canvas (NewRGBA (image_Rect 0 0 cs cs))) x y) = 0"
proof -
  let ?img = "NewRGBA (image_Rect 0 0 cs cs)"
  have bounds: "Rect (clear_canvas ?img) = image_Rect 0 0 cs cs"
    by (simp add: clear_canvas_Rect NewRGBA_def)
  have "Pix ?img (x, y) = Transparent"
    by (simp add: NewRGBA_def Transparent_def)
  then have buffer: "Pix (clear_canvas ?img) (x, y) = Transparent"
    by (simp add: clear_canvas_Pix)
  have read: "At (clear_canvas ?img) x y = Transparent"
    by (rule clear_canvas_At)
  then have "rgba_A (At (clear_canvas ?img) x y) = 0"
    by (simp add: Transparent_def)
  with bounds buffer read show ?thesis by simp
qed

section \<open>The resampler\<close>

lemma rotate_pixel_fun:
  "rotate_pixel img rad w h cx cy newCX newCY y =
     (\<lambda>x dst.
        if 0 \<le> (real_of_int x - newCX) * cos (- rad) - (real_of_int y - newCY) * sin (- rad) + cx \<and>
           (real_of_int x - newCX) * cos (- rad) - (real_of_int y - newCY) * sin (- rad) + cx < w \<and>
           0 \<le> (real_of_int x - newCX) * sin (- rad) + (real_of_int y - newCY) * cos (- rad) + cy \<and>
           (real_of_int x - newCX) * sin (- rad) + (real_of_int y - newCY) * cos (- rad) + cy < h
        then Set_pixel dst x y
          (At img
            (float_to_int
              ((real_of_int x - newCX) * cos (- rad) - (real_of_int y - newCY) * sin (- rad) + cx))
            (float_to_int
              ((real_of_int x - newCX) * sin (- rad) + (real_of_int y - newCY) * cos (- rad) + cy)))
        else dst)"
  by (intro ext) (simp only: rotate_pixel_def Let_def)

lemma rotateAndCrop_Rect:
  "Rect (rotateAndCrop img deg tw th) = image_Rect 0 0 tw th"
  unfolding rotateAndCrop_def Let_def for_range_fold_fun rotate_pixel_fun
  by (simp only: paint_rows [THEN conjunct1]) (simp add: NewRGBA_def)

lemma rotateAndCrop_At:
  assumes "0 \<le> x" "x < tw" "0 \<le> y" "y < th"
  shows "At (rotateAndCrop img deg tw th) x y =
     (let p = spec_source_point img deg tw th x y in
      if 0 \<le> fst p \<and> fst p < real_of_int (Dx (Rect img)) \<and>
         0 \<le> snd p \<and> snd p < real_of_int (Dy (Rect img))
      then At img (float_to_int (fst p)) (float_to_int (snd p))
      else Transparent)"
proof -
  have inside: "point_In x y (Rect (NewRGBA (image_Rect 0 0 tw th)))"
    using assms by (simp add: NewRGBA_def image_Rect_def point_In_def)
  have blank: "At (NewRGBA (image_Rect 0 0 tw th)) x y = Transparent"
    by (simp add: At_def NewRGBA_def Transparent_def)
  have mem: "y \<in> set [0..th - 1]" "x \<in> set [0..tw - 1]"
    using assms by simp_all
  show ?thesis
    unfolding rotateAndCrop_def Let_def for_range_fold_fun rotate_pixel_fun At_paint_rows
      spec_source_point_def
    using inside blank mem by simp
qed



lemma floor_add_half:
  "\<lfloor>real_of_int x - real_of_int a / 2 + real_of_int b / 2\<rfloor> = x + (b - a) div 2"
proof -
  have "real_of_int x - real_of_int a / 2 + real_of_int b / 2 =
        real_of_int x + real_of_int (b - a) / 2"
    by simp
  then show ?thesis
    by (simp only: int_add_floor [symmetric] floor_of_int_div_numeral)
qed

lemma rotateAndCrop_identity:
  assumes "0 \<le> tw" "tw \<le> Dx (Rect cnv)" "0 \<le> th" "th \<le> Dy (Rect cnv)"
    and "0 \<le> x" "x < tw" "0 \<le> y" "y < th"
  shows "At (rotateAndCrop cnv 0 tw th) x y =
         At cnv (x + (Dx (Rect cnv) - tw) div 2) (y + (Dy (Rect cnv) - th) div 2)"
proof -
  define w where "w = Dx (Rect cnv)"
  define h where "h = Dy (Rect cnv)"
  let ?px = "real_of_int x - real_of_int tw / 2 + real_of_int w / 2"
  let ?py = "real_of_int y - real_of_int th / 2 + real_of_int h / 2"
  have p: "spec_source_point cnv 0 tw th x y = (?px, ?py)"
    by (simp add: spec_source_point_def Let_def w_def h_def)
  have bx: "0 \<le> ?px" "?px < real_of_int w"
    using assms(1,2,5,6) unfolding w_def [symmetric] by (simp_all add: field_simps)
  have "0 \<le> ?py" "?py < real_of_int h"
    using assms(3,4,7,8) unfolding h_def [symmetric] by (simp_all add: field_simps)
  with bx have "At (rotateAndCrop cnv 0 tw th) x y =
      At cnv (float_to_int ?px) (float_to_int ?py)"
    using rotateAndCrop_At [OF assms(5-8), of cnv 0]
    by (simp add: p w_def h_def)
  also have "float_to_int ?px = x + (w - tw) div 2"
    using bx(1) by (simp only: float_to_int_nonneg floor_add_half)
  also have "float_to_int ?py = y + (h - th) div 2"
    using \<open>0 \<le> ?py\<close> by (simp only: float_to_int_nonneg floor_add_half)
  finally show ?thesis
    by (simp only: w_def h_def)
qed

text \<open>
  Claim C4, as amended. For rotation 0 and a canvas at least as large as the target in both
  dimensions, the pixel \<open>(x, y)\<close> of the result is the canvas pixel at
  \<open>(x + floor ((cw - tw) / 2), y + floor ((ch - th) / 2))\<close>, where \<open>cw\<close>, \<open>ch\<close> are the sizes of
  the canvas and \<open>tw\<close>, \<open>th\<close> those of the target. On each axis this offset is
  \<open>cw / 2 - tw / 2\<close> in integer division, less 1 when the canvas size is even and the target
  size odd.
\<close>

theorem identity_rotation_is_centered_crop:
  assumes "0 \<le> tw" "tw \<le> Dx (Rect cnv)" "0 \<le> th" "th \<le> Dy (Rect cnv)"
    and "0 \<le> x" "x < tw" "0 \<le> y" "y < th"
  shows "At (rotateAndCrop cnv 0 tw th) x y =
           At cnv (x + (Dx (Rect cnv) - tw) div 2) (y + (Dy (Rect cnv) - th) div 2) \<and>
         (Dx (Rect cnv) - tw) div 2 =
           Dx (Rect cnv) div 2 - tw div 2 - (if even (Dx (Rect cnv)) \<and> odd tw then 1 else 0) \<and>
         (Dy (Rect cnv) - th) div 2 =
           Dy (Rect cnv) div 2 - th div 2 - (if even (Dy (Rect cnv)) \<and> odd th then 1 else 0)"
proof -
  have "(a - b) div 2 = a div 2 - b div 2 - (if even a \<and> odd b then 1 else 0)" for a b :: int
    by presburger
  then show ?thesis
    using rotateAndCrop_identity [OF assms] by blast
qed

theorem identity_rotation_is_centered_crop_witness:
  "(0::int) \<le> 1 \<and>
   (1::int) \<le> Dx (Rect (Set_pixel (NewRGBA (image_Rect 0 0 3 3)) 1 1 (RGBA 0 0 0 255))) \<and>
   (1::int) \<le> Dy (Rect (Set_pixel (NewRGBA (image_Rect 0 0 3 3)) 1 1 (RGBA 0 0 0 255))) \<and>
   (0::int) < 1 \<and>
   At (rotateAndCrop (Set_pixel (NewRGBA (image_Rect 0 0 3 3)) 1 1 (RGBA 0 0 0 255)) 0 1 1) 0 0 =
     RGBA 0 0 0 255"
proof -
  let ?cnv = "Set_pixel (NewRGBA (image_Rect 0 0 3 3)) 1 1 (RGBA 0 0 0 255)"
  have d: "Dx (Rect ?cnv) = 3" "Dy (Rect ?cnv) = 3"
    by (simp_all add: Set_pixel_def NewRGBA_def image_Rect_def point_In_def Dx_def Dy_def)
  have "At (rotateAndCrop ?cnv 0 1 1) 0 0 = At ?cnv (0 + (3 - 1) div 2) (0 + (3 - 1) div 2)"
    using identity_rotation_is_centered_crop [of 1 ?cnv 1 0 0] by (simp add: d)
  also have "\<dots> = RGBA 0 0 0 255"
    by (simp add: Set_pixel_def NewRGBA_def image_Rect_def point_In_def At_def)
  finally show ?thesis by (simp add: d)
qed

theorem centered_crop_counterexample:
  "Dx (Rect (rotateAndCrop (Set_pixel (NewRGBA (image_Rect 0 0 2 2)) 1 1 (RGBA 0 0 0 255)) 0 1 1))
     \<le> Dx (Rect (Set_pixel (NewRGBA (image_Rect 0 0 2 2)) 1 1 (RGBA 0 0 0 255))) \<and>
   Dy (Rect (rotateAndCrop (Set_pixel (NewRGBA (image_Rect 0 0 2 2)) 1 1 (RGBA 0 0 0 255)) 0 1 1))
     \<le> Dy (Rect (Set_pixel (NewRGBA (image_Rect 0 0 2 2)) 1 1 (RGBA 0 0 0 255))) \<and>
   At (rotateAndCrop (Set_pixel (NewRGBA (image_Rect 0 0 2 2)) 1 1 (RGBA 0 0 0 255)) 0 1 1) 0 0 =
     RGBA 0 0 0 0 \<and>
   At (Set_pixel (NewRGBA (image_Rect 0 0 2 2)) 1 1 (RGBA 0 0 0 255))
     (0 + Dx (Rect (Set_pixel (NewRGBA (image_Rect 0 0 2 2)) 1 1 (RGBA 0 0 0 255))) div 2 -
        Dx (Rect (rotateAndCrop
          (Set_pixel (NewRGBA (image_Rect 0 0 2 2)) 1 1 (RGBA 0 0 0 255)) 0 1 1)) div 2)
     (0 + Dy (Rect (Set_pixel (NewRGBA (image_Rect 0 0 2 2)) 1 1 (RGBA 0 0 0 255))) div 2 -
        Dy (Rect (rotateAndCrop
          (Set_pixel (NewRGBA (image_Rect 0 0 2 2)) 1 1 (RGBA 0 0 0 255)) 0 1 1)) div 2) =
     RGBA 0 0 0 255"
proof -
  let ?cnv = "Set_pixel (NewRGBA (image_Rect 0 0 2 2)) 1 1 (RGBA 0 0 0 255)"
  have d: "Dx (Rect ?cnv) = 2" "Dy (Rect ?cnv) = 2"
    by (simp_all add: Set_pixel_def NewRGBA_def image_Rect_def point_In_def Dx_def Dy_def)
  have f: "Dx (Rect (rotateAndCrop ?cnv 0 1 1)) = 1" "Dy (Rect (rotateAndCrop ?cnv 0 1 1)) = 1"
    by (simp_all add: rotateAndCrop_Rect image_Rect_def Dx_def Dy_def)
  have "At (rotateAndCrop ?cnv 0 1 1) 0 0 = At ?cnv (0 + (2 - 1) div 2) (0 + (2 - 1) div 2)"
    using rotateAndCrop_identity [of 1 ?cnv 1 0 0] by (simp add: d)
  also have "\<dots> = RGBA 0 0 0 0"
    by (simp add: Set_pixel_def NewRGBA_def image_Rect_def point_In_def At_def)
  finally have a: "At (rotateAndCrop ?cnv 0 1 1) 0 0 = RGBA 0 0 0 0" .
  have b: "At ?cnv 1 1 = RGBA 0 0 0 255"
    by (simp add: Set_pixel_def NewRGBA_def image_Rect_def point_In_def At_def)
  show ?thesis
    unfolding d f using a b by simp
qed

end
